theory Spec2Isabelle
  imports Main
begin

section \<open>The values and plain objects the controller works with\<close>

text \<open>
  \<^verbatim>\<open>loginAttempts\<close> and \<^verbatim>\<open>lastLoginAttemptTime\<close> are plain objects (\<^verbatim>\<open>{}\<close>, lines 13 and 14)
  used as dictionaries. A read \<^verbatim>\<open>obj[key]\<close> of a plain object yields the object's own
  property when it has one and otherwise what \<^verbatim>\<open>Object.prototype\<close> has under that name, so
  the values the controller meets are not only the numbers it stores:
  \<^item> \<open>Undefined\<close>: no own property and nothing inherited;
  \<^item> \<open>Number n\<close>: a number holding the integer \<open>n\<close> (counters and \<^verbatim>\<open>Date.now()\<close> readings are
    integers far below \<open>2^53\<close>);
  \<^item> \<open>NaN\<close>: the result of arithmetic on what is not a number;
  \<^item> \<open>Builtin\<close>: a function inherited from \<^verbatim>\<open>Object.prototype\<close> (under \<^verbatim>\<open>constructor\<close>,
    \<^verbatim>\<open>toString\<close> and so on);
  \<^item> \<open>ObjectPrototype\<close>: \<^verbatim>\<open>Object.prototype\<close> itself, which a read of \<^verbatim>\<open>__proto__\<close> yields;
  \<^item> \<open>Text n\<close>: a string that is no numeric literal, namely the text form of such a
    function or object followed by \<open>n\<close> characters \<^verbatim>\<open>1\<close> (what \<^verbatim>\<open>+ 1\<close> makes of them).
\<close>

datatype jsval = Undefined | Number int | NaN | Builtin | ObjectPrototype | Text nat

text \<open>Truthiness, as \<^verbatim>\<open>||\<close>, \<^verbatim>\<open>&&\<close> and \<^verbatim>\<open>!\<close> see it. The strings here are never empty.\<close>

fun truthy :: "jsval \<Rightarrow> bool" where
  "truthy Undefined = False"
| "truthy (Number n) = (n \<noteq> 0)"
| "truthy NaN = False"
| "truthy Builtin = True"
| "truthy ObjectPrototype = True"
| "truthy (Text n) = True"

text \<open>\<^verbatim>\<open>v || 0\<close>.\<close>

definition or0 :: "jsval \<Rightarrow> jsval" where
  "or0 v = (if truthy v then v else Number 0)"

text \<open>
  \<^verbatim>\<open>a - b\<close> converts both operands to numbers; \<open>Undefined\<close>, a function, an object and a
  string that is no numeric literal all convert to \<open>NaN\<close>.
\<close>

fun jsSub :: "jsval \<Rightarrow> jsval \<Rightarrow> jsval" where
  "jsSub (Number a) (Number b) = Number (a - b)"
| "jsSub a b = NaN"

text \<open>\<^verbatim>\<open>a <= b\<close> and \<^verbatim>\<open>a > b\<close> on such results: every comparison with \<open>NaN\<close> is false.\<close>

fun jsLe :: "jsval \<Rightarrow> jsval \<Rightarrow> bool" where
  "jsLe (Number a) (Number b) = (a \<le> b)"
| "jsLe a b = False"

fun jsGt :: "jsval \<Rightarrow> jsval \<Rightarrow> bool" where
  "jsGt (Number a) (Number b) = (a > b)"
| "jsGt a b = False"

text \<open>
  \<^verbatim>\<open>v + 1\<close>: addition on a number; a function or an object is first turned into its text,
  and a string operand makes \<^verbatim>\<open>+\<close> a concatenation.
\<close>

fun jsAdd1 :: "jsval \<Rightarrow> jsval" where
  "jsAdd1 (Number n) = Number (n + 1)"
| "jsAdd1 Undefined = NaN"
| "jsAdd1 NaN = NaN"
| "jsAdd1 Builtin = Text 1"
| "jsAdd1 ObjectPrototype = Text 1"
| "jsAdd1 (Text n) = Text (Suc n)"

text \<open>
  The names under which \<^verbatim>\<open>Object.prototype\<close> holds a function. Its one other property,
  \<^verbatim>\<open>__proto__\<close>, is an accessor: it yields the prototype when read and ignores the
  assignment of a number or a string. A key is ordinary when it is none of these names.
\<close>

definition functionMembers :: "string list" where
  "functionMembers =
     [''constructor'', ''hasOwnProperty'', ''isPrototypeOf'', ''propertyIsEnumerable'',
      ''toLocaleString'', ''toString'', ''valueOf'', ''__defineGetter__'',
      ''__defineSetter__'', ''__lookupGetter__'', ''__lookupSetter__'']"

definition ordinary :: "string \<Rightarrow> bool" where
  "ordinary key = (key \<noteq> ''__proto__'' \<and> key \<notin> set functionMembers)"

text \<open>
  A plain object is the map of its own properties. \<^verbatim>\<open>obj[key]\<close>, \<^verbatim>\<open>obj[key] = v\<close> (for the
  numbers and strings assigned here) and \<^verbatim>\<open>delete obj[key]\<close>:
\<close>

type_synonym jsobject = "string \<rightharpoonup> jsval"

definition getProp :: "jsobject \<Rightarrow> string \<Rightarrow> jsval" where
  "getProp obj key =
     (case obj key of
        Some v \<Rightarrow> v
      | None \<Rightarrow>
          if key = ''__proto__'' then ObjectPrototype
          else if key \<in> set functionMembers then Builtin
          else Undefined)"

definition putProp :: "jsobject \<Rightarrow> string \<Rightarrow> jsval \<Rightarrow> jsobject" where
  "putProp obj key v = (if key = ''__proto__'' \<and> obj key = None then obj else obj(key \<mapsto> v))"

definition deleteProp :: "jsobject \<Rightarrow> string \<Rightarrow> jsobject" where
  "deleteProp obj key = obj(key := None)"

section \<open>The login throttle of authentication-controller.js\<close>

record throttle =
  loginAttempts :: jsobject
  lastLoginAttemptTime :: jsobject

definition MAX_LOGIN_ATTEMPTS :: int where
  "MAX_LOGIN_ATTEMPTS = 4"

definition LOGIN_TIMEOUT :: int where
  "LOGIN_TIMEOUT = 30 * 60 * 1000"

text \<open>The state of a freshly loaded module: neither object has an own property.\<close>

definition initial :: throttle where
  "initial = \<lparr>loginAttempts = Map.empty, lastLoginAttemptTime = Map.empty\<rparr>"

text \<open>
  \<^verbatim>\<open>String.prototype.toLowerCase\<close> is a parameter of the model, written \<open>toLowerCase\<close> in
  the definitions below: what is proved for every function from strings to strings holds
  for the one JavaScript has. Theorems about one given address need its value there; on
  addresses of ASCII characters, the only ones they are about, it is this function.
\<close>

definition lowerChar :: "char \<Rightarrow> char" where
  "lowerChar c =
     (let n = (of_char c :: nat) in if 65 \<le> n \<and> n \<le> 90 then char_of (n + 32) else c)"

definition asciiToLowerCase :: "string \<Rightarrow> string" where
  "asciiToLowerCase email = map lowerChar email"

text \<open>
  What \<^verbatim>\<open>authenticationServices.checkLoginCredentials\<close> hands back when awaited inside
  the \<^verbatim>\<open>try\<close> block. The service is a collaborator outside this file, so its answer is an
  input of the model: a truthy value (the payload sent to the client), a falsy value, or
  a rejected promise, which the \<^verbatim>\<open>await\<close> turns into a throw.
\<close>

datatype verdict = Truthy string | Falsy | Rejection string

text \<open>
  The two errors the controller builds with \<^verbatim>\<open>errorResponder\<close>, each with its message,
  an error thrown by the service, and the \<^verbatim>\<open>TypeError\<close> of lines 20 and 21.
\<close>

datatype error = FORBIDDEN string | INVALID_CREDENTIALS string | Thrown string | TypeError

text \<open>
  How a call ends: \<^verbatim>\<open>response.status(200).json(loginSuccess)\<close>, \<^verbatim>\<open>next(error)\<close>, or, for an
  error thrown outside the \<^verbatim>\<open>try\<close> block, the rejection of the promise \<^verbatim>\<open>login\<close> returned,
  with neither \<^verbatim>\<open>response\<close> nor \<^verbatim>\<open>next\<close> used.
\<close>

datatype response = Json200 string | Next error | Uncaught error

text \<open>
  The effects of a call besides the two objects, in the order they happen: the two
  \<^verbatim>\<open>logger.info\<close> lines (with the address and the value interpolated into the message)
  and the awaited \<^verbatim>\<open>setTimeout\<close> (with its duration in milliseconds).
\<close>

datatype effect =
    LogLockedOut string jsval
  | LogFailed string jsval
  | Timer int

text \<open>
  \<^verbatim>\<open>login\<close> is an \<^verbatim>\<open>async\<close> function: it runs without interruption up to an \<^verbatim>\<open>await\<close>,
  is suspended there, and runs on without interruption when the awaited promise settles.
  It has two \<^verbatim>\<open>await\<close>s, the timer of line 41 and the service call of line 50, and a call
  meets at most one of them. A suspended call remembers its local variables \<^verbatim>\<open>key\<close>,
  \<^verbatim>\<open>email\<close>, \<^verbatim>\<open>now\<close> and \<^verbatim>\<open>remainingAttempts\<close>.
\<close>

datatype suspended =
    AwaitTimer string string jsval
  | AwaitVerifier string string int jsval

datatype stage = Suspended suspended | Ended response

text \<open>Line 25, \<^verbatim>\<open>loginAttempts[key] || 0\<close>.\<close>

definition attempts :: "throttle \<Rightarrow> string \<Rightarrow> jsval" where
  "attempts s key = or0 (getProp (loginAttempts s) key)"

text \<open>
  The condition of lines 29 to 32,
  \<^verbatim>\<open>lastLoginAttemptTime[key] && now - lastLoginAttemptTime[key] > LOGIN_TIMEOUT\<close>.
\<close>

definition timedOut :: "throttle \<Rightarrow> string \<Rightarrow> int \<Rightarrow> bool" where
  "timedOut s key now =
     (truthy (getProp (lastLoginAttemptTime s) key)
      \<and> jsGt (jsSub (Number now) (getProp (lastLoginAttemptTime s) key)) (Number LOGIN_TIMEOUT))"

text \<open>
  Lines 20 to 41 (or 20 to 50): from the entry of \<^verbatim>\<open>login\<close> to its \<^verbatim>\<open>await\<close>. \<open>body\<close> is
  the \<^verbatim>\<open>email\<close> of the request body when that is a string and \<open>None\<close> otherwise (no body,
  no \<^verbatim>\<open>email\<close>, or a value of another type): then line 20 or line 21 throws a
  \<^verbatim>\<open>TypeError\<close>, outside the \<^verbatim>\<open>try\<close> block. \<open>now\<close> is the reading of \<^verbatim>\<open>Date.now()\<close> at line
  27. \<^verbatim>\<open>attempts\<close> and \<^verbatim>\<open>remainingAttempts\<close> are computed at lines 25 and 26, before the
  reset of line 34.
\<close>

definition loginBegin ::
  "(string \<Rightarrow> string) \<Rightarrow> throttle \<Rightarrow> string option \<Rightarrow> int \<Rightarrow> throttle \<times> effect list \<times> stage" where
  "loginBegin toLowerCase s body now =
     (case body of
        None \<Rightarrow> (s, [], Ended (Uncaught TypeError))
      | Some email \<Rightarrow>
          (let key = toLowerCase email;
               remainingAttempts = jsSub (Number MAX_LOGIN_ATTEMPTS) (attempts s key);
               s1 = (if timedOut s key now
                     then s\<lparr>loginAttempts := putProp (loginAttempts s) key (Number 0)\<rparr>
                     else s)
           in if jsLe remainingAttempts (Number 0)
              then (s1,
                    [LogLockedOut email (jsSub (Number 5) remainingAttempts),
                     Timer (1 * 60 * 1000)],
                    Suspended (AwaitTimer key email remainingAttempts))
              else (s1, [], Suspended (AwaitVerifier key email now remainingAttempts))))"

text \<open>
  Lines 42 to 46 after the timer, lines 54 to 71 after the service call: from the
  \<^verbatim>\<open>await\<close> to the end of \<^verbatim>\<open>login\<close>, in the state the two objects are in by then. Every
  \<^verbatim>\<open>throw\<close> is inside the \<^verbatim>\<open>try\<close> block and ends in \<^verbatim>\<open>next(error)\<close>. The timer's promise is
  only ever resolved, so the verdict plays no part after it.
\<close>

fun loginResume :: "throttle \<Rightarrow> suspended \<Rightarrow> verdict \<Rightarrow> throttle \<times> effect list \<times> response" where
  "loginResume s (AwaitTimer key email remainingAttempts) v =
     (s\<lparr>loginAttempts := deleteProp (loginAttempts s) key\<rparr>, [],
      Next (FORBIDDEN ''Too many failed login attempts''))"
| "loginResume s (AwaitVerifier key email now remainingAttempts) (Rejection e) =
     (s, [], Next (Thrown e))"
| "loginResume s (AwaitVerifier key email now remainingAttempts) Falsy =
     (s\<lparr>loginAttempts := putProp (loginAttempts s) key (jsAdd1 (attempts s key)),
        lastLoginAttemptTime := putProp (lastLoginAttemptTime s) key (Number now)\<rparr>,
      [LogFailed email (jsSub (Number 5) remainingAttempts)],
      Next (INVALID_CREDENTIALS ''Wrong email or password''))"
| "loginResume s (AwaitVerifier key email now remainingAttempts) (Truthy payload) =
     (s\<lparr>loginAttempts := deleteProp (loginAttempts s) key\<rparr>, [], Json200 payload)"

text \<open>A call of \<^verbatim>\<open>login\<close> that no other call interleaves with.\<close>

definition login ::
  "(string \<Rightarrow> string) \<Rightarrow> throttle \<Rightarrow> string option \<Rightarrow> int \<Rightarrow> verdict
     \<Rightarrow> throttle \<times> effect list \<times> response" where
  "login toLowerCase s body now v =
     (case loginBegin toLowerCase s body now of
        (s1, fx1, Ended r) \<Rightarrow> (s1, fx1, r)
      | (s1, fx1, Suspended k) \<Rightarrow>
          (case loginResume s1 k v of (s2, fx2, r) \<Rightarrow> (s2, fx1 @ fx2, r)))"

text \<open>
  A sequence of calls, one after the other. An attempt is the body's address, the clock
  reading and the service's verdict; the result is the final state and each call's
  effects and response.
\<close>

type_synonym attempt = "string option \<times> int \<times> verdict"

fun run ::
  "(string \<Rightarrow> string) \<Rightarrow> throttle \<Rightarrow> attempt list \<Rightarrow> throttle \<times> (effect list \<times> response) list" where
  "run toLowerCase s [] = (s, [])"
| "run toLowerCase s ((body, now, v) # as) =
     (case login toLowerCase s body now v of
        (s1, fx, r) \<Rightarrow>
          (case run toLowerCase s1 as of (s2, rs) \<Rightarrow> (s2, (fx, r) # rs)))"

text \<open>
  The outcome of a call as the specification classifies it. A service error handed to
  \<^verbatim>\<open>next\<close> and an error that escapes \<^verbatim>\<open>login\<close> are none of the specification's three
  outcomes.
\<close>

datatype outcome = Authenticated | Rejected | Locked | Unclassified

fun outcomeOf :: "response \<Rightarrow> outcome" where
  "outcomeOf (Json200 payload) = Authenticated"
| "outcomeOf (Next (INVALID_CREDENTIALS m)) = Rejected"
| "outcomeOf (Next (FORBIDDEN m)) = Locked"
| "outcomeOf (Next (Thrown e)) = Unclassified"
| "outcomeOf (Next TypeError) = Unclassified"
| "outcomeOf (Uncaught e) = Unclassified"

definition outcomes :: "(string \<Rightarrow> string) \<Rightarrow> throttle \<Rightarrow> attempt list \<Rightarrow> outcome list" where
  "outcomes toLowerCase s as = map (\<lambda>(fx, r). outcomeOf r) (snd (run toLowerCase s as))"

text \<open>The values written to the log by a sequence of calls, in order.\<close>

fun loggedNumber :: "effect \<Rightarrow> jsval list" where
  "loggedNumber (LogLockedOut email n) = [n]"
| "loggedNumber (LogFailed email n) = [n]"
| "loggedNumber (Timer d) = []"

definition loggedNumbers :: "(string \<Rightarrow> string) \<Rightarrow> throttle \<Rightarrow> attempt list \<Rightarrow> jsval list" where
  "loggedNumbers toLowerCase s as =
     concat (map (\<lambda>(fx, r). concat (map loggedNumber fx)) (snd (run toLowerCase s as)))"

text \<open>Consecutive attempts from one address that the service turns down, at the given times.\<close>

definition failures :: "string \<Rightarrow> int list \<Rightarrow> attempt list" where
  "failures email ts = map (\<lambda>t. (Some email, t, Falsy)) ts"

text \<open>
  No staleness elapses along a sequence of clock readings: each one is at most
  \<open>LOGIN_TIMEOUT\<close> after the one before it.
\<close>

fun spaced :: "int \<Rightarrow> int list \<Rightarrow> bool" where
  "spaced t [] = True"
| "spaced t (u # us) = (u - t \<le> LOGIN_TIMEOUT \<and> spaced u us)"

text \<open>The same for a whole list of readings; the empty list has no gap to check.\<close>

fun unbroken :: "int list \<Rightarrow> bool" where
  "unbroken [] = True"
| "unbroken (t # ts) = spaced t ts"

text \<open>The time a call spends waiting on timers: the sum of the awaited durations.\<close>

fun waited :: "effect list \<Rightarrow> int" where
  "waited [] = 0"
| "waited (Timer d # fx) = d + waited fx"
| "waited (LogLockedOut email n # fx) = waited fx"
| "waited (LogFailed email n # fx) = waited fx"

subsection \<open>Calls in flight at the same time\<close>

text \<open>
  JavaScript runs one piece of code at a time; calls of \<^verbatim>\<open>login\<close> overlap only in that one
  call may run while another is suspended at its \<^verbatim>\<open>await\<close>. An execution of several calls
  is therefore a sequence of events: call \<open>i\<close> begins (and runs to its \<^verbatim>\<open>await\<close>), or the
  promise call \<open>i\<close> waits for settles (and the call runs to its end). The configuration
  holds the two shared objects, the suspended calls, and the history of the execution:
  every effect and every response, each with the call it belongs to, in the order they
  happen.
\<close>

datatype event = Begin nat "string option" int | Settle nat verdict

datatype entry = Effect nat effect | Answer nat response

record config =
  store :: throttle
  pending :: "nat \<rightharpoonup> suspended"
  history :: "entry list"

fun step :: "(string \<Rightarrow> string) \<Rightarrow> config \<Rightarrow> event \<Rightarrow> config" where
  "step toLowerCase c (Begin i body now) =
     (case loginBegin toLowerCase (store c) body now of
        (s1, fx, Suspended k) \<Rightarrow>
          c\<lparr>store := s1, pending := (pending c)(i \<mapsto> k),
            history := history c @ map (Effect i) fx\<rparr>
      | (s1, fx, Ended r) \<Rightarrow>
          c\<lparr>store := s1, history := history c @ map (Effect i) fx @ [Answer i r]\<rparr>)"
| "step toLowerCase c (Settle i v) =
     (case pending c i of
        None \<Rightarrow> c
      | Some k \<Rightarrow>
          (case loginResume (store c) k v of
             (s2, fx, r) \<Rightarrow>
               c\<lparr>store := s2, pending := (pending c)(i := None),
                 history := history c @ map (Effect i) fx @ [Answer i r]\<rparr>))"

fun exec :: "(string \<Rightarrow> string) \<Rightarrow> config \<Rightarrow> event list \<Rightarrow> config" where
  "exec toLowerCase c [] = c"
| "exec toLowerCase c (e # es) = exec toLowerCase (step toLowerCase c e) es"

definition idle :: "throttle \<Rightarrow> config" where
  "idle s = \<lparr>store = s, pending = Map.empty, history = []\<rparr>"

text \<open>
  A history in which every call answered \<^verbatim>\<open>FORBIDDEN\<close> has awaited its timer of
  \<^verbatim>\<open>1 * 60 * 1000\<close> milliseconds before the answer.
\<close>

definition waitsFirst :: "entry list \<Rightarrow> bool" where
  "waitsFirst h =
     (\<forall>pre i m post. h = pre @ Answer i (Next (FORBIDDEN m)) # post
        \<longrightarrow> Effect i (Timer (1 * 60 * 1000)) \<in> set pre)"

section \<open>Creating a transfer: users-service.js\<close>

text \<open>
  \<^verbatim>\<open>createTransfer\<close> calls two functions of \<^verbatim>\<open>users-repository\<close>, which is not among the
  sources. In the model of \<^verbatim>\<open>createTransfer\<close> they are parameters, over any type \<open>'db\<close> of
  database states and any type \<open>'u\<close> of user documents: \<^verbatim>\<open>getUser\<close> reads the database and
  resolves to a document or to \<^verbatim>\<open>null\<close>, or rejects; the repository's \<^verbatim>\<open>createTransfer\<close>
  leaves a database state behind and resolves, or rejects with an error.
\<close>

record ('db, 'u) usersRepository =
  repoGetUser :: "'db \<Rightarrow> string \<Rightarrow> string + 'u option"
  repoCreateTransfer ::
    "'db \<Rightarrow> string \<Rightarrow> 'u option \<Rightarrow> 'u option \<Rightarrow> int \<Rightarrow> int \<Rightarrow> 'db \<times> string option"

text \<open>
  Lines 126 to 155. \<open>transferId\<close> is the identifier drawn from \<^verbatim>\<open>Math.random()\<close> at lines
  127 to 129 and \<open>timestamp\<close> the reading of \<^verbatim>\<open>Date.now()\<close> at line 131. The result is
  \<open>Some True\<close> for \<^verbatim>\<open>true\<close> and \<open>None\<close> for \<^verbatim>\<open>null\<close>, next to the database state the
  call leaves behind; \<open>id'\<close> is the parameter \<^verbatim>\<open>id\<close>. A rejected promise is caught at
  line 152.
\<close>

definition createTransfer ::
  "('db, 'u) usersRepository \<Rightarrow> 'db \<Rightarrow> string \<Rightarrow> int \<Rightarrow> string \<Rightarrow> string \<Rightarrow> int
     \<Rightarrow> 'db \<times> bool option" where
  "createTransfer repo db transferId timestamp id' toUserId amount =
     (case repoGetUser repo db toUserId of
        Inl err \<Rightarrow> (db, None)
      | Inr toUser \<Rightarrow>
          (case repoGetUser repo db id' of
             Inl err \<Rightarrow> (db, None)
           | Inr fromUser \<Rightarrow>
               (case repoCreateTransfer repo db transferId fromUser toUser amount timestamp of
                  (db1, Some err) \<Rightarrow> (db1, None)
                | (db1, None) \<Rightarrow>
                    if toUser = None then (db1, None)
                    else if fromUser = None then (db1, None)
                    else (db1, Some True))))"

text \<open>
  Modelled from the spec: \<^verbatim>\<open>users-repository\<close>, whose \<^verbatim>\<open>getUser\<close> and \<^verbatim>\<open>createTransfer\<close>
  are called above and are not among the sources. The specification (section 1)
  describes the persistence code as direct persistence plumbing, create, read, update
  and delete passthroughs with little independent logic, thin wrappers of the storage,
  and notes that the source does no debit or credit validation of transfers. So the
  database is the users by identifier and the list of stored transfers; \<^verbatim>\<open>getUser\<close>
  resolves to the user stored under the identifier or to \<^verbatim>\<open>null\<close>; \<^verbatim>\<open>createTransfer\<close>
  stores the transfer it is passed, as it is passed, and resolves.
\<close>

record 'u stored =
  storedId :: string
  storedFrom :: "'u option"
  storedTo :: "'u option"
  storedAmount :: int
  storedAt :: int

record 'u database =
  users :: "string \<rightharpoonup> 'u"
  transfers :: "'u stored list"

definition passthroughRepository :: "('u database, 'u) usersRepository" where
  "passthroughRepository =
     \<lparr>repoGetUser = (\<lambda>db uid. Inr (users db uid)),
      repoCreateTransfer = (\<lambda>db tid sender recipient amt ts.
        (db\<lparr>transfers := transfers db
              @ [\<lparr>storedId = tid, storedFrom = sender, storedTo = recipient,
                   storedAmount = amt, storedAt = ts\<rparr>]\<rparr>,
         None))\<rparr>"

section \<open>Reads and writes of a plain object\<close>

lemma deleteProp_putProp: "deleteProp (putProp obj key v) key = obj(key := None)"
  by (simp add: deleteProp_def putProp_def)

lemma getProp_own: "obj key = Some v \<Longrightarrow> getProp obj key = v"
  by (simp add: getProp_def)

lemma getProp_Number: "getProp obj key = Number n \<Longrightarrow> obj key = Some (Number n)"
  by (auto simp: getProp_def split: option.splits if_splits)

lemma putProp_ordinary: "ordinary key \<Longrightarrow> putProp obj key v = obj(key \<mapsto> v)"
  by (simp add: putProp_def ordinary_def)

lemma putProp_own: "obj key \<noteq> None \<Longrightarrow> putProp obj key v = obj(key \<mapsto> v)"
  by (auto simp: putProp_def)

lemma getProp_ordinary:
  "ordinary key \<Longrightarrow> getProp obj key = (case obj key of None \<Rightarrow> Undefined | Some v \<Rightarrow> v)"
  by (simp add: getProp_def ordinary_def split: option.splits)

text \<open>A counter that reads as a number can be written: the key has an own property or is ordinary.\<close>

lemma attempts_Number_writable:
  assumes "attempts s key = Number n"
  shows "putProp (loginAttempts s) key v = (loginAttempts s)(key \<mapsto> v)"
  using assms
  by (auto simp: attempts_def or0_def getProp_def putProp_def split: option.splits if_splits)

lemma attempts_own_None:
  "loginAttempts s key = None \<Longrightarrow> attempts s key = attempts initial key"
  by (simp add: attempts_def getProp_def initial_def)

lemma attempts_clean:
  "ordinary key \<Longrightarrow> loginAttempts s key = None \<Longrightarrow> attempts s key = Number 0"
  by (simp add: attempts_def getProp_ordinary or0_def)

lemma attempts_stored:
  "loginAttempts s key = Some (Number n) \<Longrightarrow> attempts s key = Number n"
  by (simp add: attempts_def getProp_def or0_def)

text \<open>The test of line 37 succeeds exactly when the counter read on entry is a number from 4 on.\<close>

lemma locked_iff:
  "jsLe (jsSub (Number MAX_LOGIN_ATTEMPTS) a) (Number 0) = (\<exists>n. a = Number n \<and> 4 \<le> n)"
  by (cases a) (auto simp: MAX_LOGIN_ATTEMPTS_def)

lemma timedOut_after:
  "lastLoginAttemptTime s key = Some (Number t) \<Longrightarrow> u - t \<le> LOGIN_TIMEOUT \<Longrightarrow> \<not> timedOut s key u"
  by (simp add: timedOut_def getProp_def)

section \<open>What a single call does\<close>

lemma login_no_address: "login toLowerCase s None now v = (s, [], Uncaught TypeError)"
  by (simp add: login_def loginBegin_def)

lemma loginBegin_locked:
  assumes "attempts s (toLowerCase email) = Number n" and "4 \<le> n"
  shows "loginBegin toLowerCase s (Some email) now =
           ((if timedOut s (toLowerCase email) now
             then s\<lparr>loginAttempts := putProp (loginAttempts s) (toLowerCase email) (Number 0)\<rparr>
             else s),
            [LogLockedOut email (Number (n + 1)), Timer (1 * 60 * 1000)],
            Suspended (AwaitTimer (toLowerCase email) email (Number (4 - n))))"
  using assms by (simp add: loginBegin_def Let_def MAX_LOGIN_ATTEMPTS_def)

lemma loginBegin_open:
  assumes "\<not> (\<exists>n. attempts s (toLowerCase email) = Number n \<and> 4 \<le> n)"
  shows "loginBegin toLowerCase s (Some email) now =
           ((if timedOut s (toLowerCase email) now
             then s\<lparr>loginAttempts := putProp (loginAttempts s) (toLowerCase email) (Number 0)\<rparr>
             else s),
            [],
            Suspended (AwaitVerifier (toLowerCase email) email now
              (jsSub (Number MAX_LOGIN_ATTEMPTS) (attempts s (toLowerCase email)))))"
  using assms by (simp add: loginBegin_def Let_def locked_iff)

lemma login_locked:
  assumes "attempts s (toLowerCase email) = Number n" and "4 \<le> n"
  shows "login toLowerCase s (Some email) now v =
           (s\<lparr>loginAttempts := (loginAttempts s)(toLowerCase email := None)\<rparr>,
            [LogLockedOut email (Number (n + 1)), Timer 60000],
            Next (FORBIDDEN ''Too many failed login attempts''))"
  using assms
  by (simp add: login_def loginBegin_locked deleteProp_putProp) (simp add: deleteProp_def)

lemma login_open:
  assumes "\<not> (\<exists>n. attempts s (toLowerCase email) = Number n \<and> 4 \<le> n)"
  shows "login toLowerCase s (Some email) now v =
           loginResume
             (if timedOut s (toLowerCase email) now
              then s\<lparr>loginAttempts := putProp (loginAttempts s) (toLowerCase email) (Number 0)\<rparr>
              else s)
             (AwaitVerifier (toLowerCase email) email now
               (jsSub (Number MAX_LOGIN_ATTEMPTS) (attempts s (toLowerCase email)))) v"
  using assms by (simp add: login_def loginBegin_open split: prod.splits)

lemma login_truthy:
  assumes "\<not> (\<exists>n. attempts s (toLowerCase email) = Number n \<and> 4 \<le> n)"
  shows "login toLowerCase s (Some email) now (Truthy p) =
           (s\<lparr>loginAttempts := (loginAttempts s)(toLowerCase email := None)\<rparr>, [], Json200 p)"
  using assms by (simp add: login_open deleteProp_putProp) (simp add: deleteProp_def)

lemma login_rejection:
  assumes "\<not> (\<exists>n. attempts s (toLowerCase email) = Number n \<and> 4 \<le> n)"
  shows "login toLowerCase s (Some email) now (Rejection e) =
           ((if timedOut s (toLowerCase email) now
             then s\<lparr>loginAttempts := putProp (loginAttempts s) (toLowerCase email) (Number 0)\<rparr>
             else s),
            [], Next (Thrown e))"
  using assms by (simp add: login_open)

lemma login_falsy_response:
  assumes "\<not> (\<exists>n. attempts s (toLowerCase email) = Number n \<and> 4 \<le> n)"
  shows "snd (login toLowerCase s (Some email) now Falsy) =
           ([LogFailed email
               (jsSub (Number 5) (jsSub (Number MAX_LOGIN_ATTEMPTS) (attempts s (toLowerCase email))))],
            Next (INVALID_CREDENTIALS ''Wrong email or password''))"
  using assms by (simp add: login_open)

text \<open>A failure counted on a counter that reads as a number below 4.\<close>

lemma login_falsy_Number:
  assumes "attempts s (toLowerCase email) = Number n" and "n < 4"
  shows "login toLowerCase s (Some email) now Falsy =
           (s\<lparr>loginAttempts := (loginAttempts s)(toLowerCase email \<mapsto>
                  Number ((if timedOut s (toLowerCase email) now then 0 else n) + 1)),
              lastLoginAttemptTime :=
                  putProp (lastLoginAttemptTime s) (toLowerCase email) (Number now)\<rparr>,
            [LogFailed email (Number (n + 1))],
            Next (INVALID_CREDENTIALS ''Wrong email or password''))"
proof -
  have op: "\<not> (\<exists>m. attempts s (toLowerCase email) = Number m \<and> 4 \<le> m)"
    using assms by simp
  have w: "putProp (loginAttempts s) (toLowerCase email) x
             = (loginAttempts s)(toLowerCase email \<mapsto> x)" for x
    using assms(1) by (rule attempts_Number_writable)
  show ?thesis
  proof (cases "timedOut s (toLowerCase email) now")
    case True
    then show ?thesis
      using assms
      using op by (simp add: login_open w MAX_LOGIN_ATTEMPTS_def)
         (simp add: attempts_def getProp_def or0_def putProp_def)
  next
    case False
    then show ?thesis
      using assms
      using op by (simp add: login_open w MAX_LOGIN_ATTEMPTS_def)
  qed
qed

text \<open>One more failure below the threshold, counted from zero or without staleness.\<close>

lemma failure_step:
  assumes "attempts s (toLowerCase email) = Number c" and "c < 4"
    and "c = 0 \<or> \<not> timedOut s (toLowerCase email) t"
    and "ordinary (toLowerCase email)"
  shows "login toLowerCase s (Some email) t Falsy =
           (s\<lparr>loginAttempts := (loginAttempts s)(toLowerCase email \<mapsto> Number (c + 1)),
              lastLoginAttemptTime := (lastLoginAttemptTime s)(toLowerCase email \<mapsto> Number t)\<rparr>,
            [LogFailed email (Number (c + 1))],
            Next (INVALID_CREDENTIALS ''Wrong email or password''))"
  using assms by (auto simp: login_falsy_Number putProp_ordinary)

text \<open>Which calls are answered Locked, and which Authenticated.\<close>

lemma login_outcome_locked:
  "(outcomeOf (snd (snd (login toLowerCase s body now v))) = Locked)
     = (\<exists>email n. body = Some email \<and> attempts s (toLowerCase email) = Number n \<and> 4 \<le> n)"
proof (cases body)
  case None
  then show ?thesis by (simp add: login_no_address)
next
  case (Some email)
  show ?thesis
  proof (cases "\<exists>n. attempts s (toLowerCase email) = Number n \<and> 4 \<le> n")
    case True
    then show ?thesis using Some by (auto simp: login_locked)
  next
    case False
    then show ?thesis
      using Some by (cases v) (simp_all add: login_open)
  qed
qed

lemma login_outcome_authenticated:
  "(outcomeOf (snd (snd (login toLowerCase s body now v))) = Authenticated)
     = (\<exists>email p. body = Some email \<and> v = Truthy p
          \<and> \<not> (\<exists>n. attempts s (toLowerCase email) = Number n \<and> 4 \<le> n))"
proof (cases body)
  case None
  then show ?thesis by (simp add: login_no_address)
next
  case (Some email)
  show ?thesis
  proof (cases "\<exists>n. attempts s (toLowerCase email) = Number n \<and> 4 \<le> n")
    case True
    then show ?thesis using Some by (auto simp: login_locked)
  next
    case False
    then show ?thesis
      using Some by (cases v) (simp_all add: login_open)
  qed
qed

text \<open>
  An identity with no own counter is answered as the same identity is on the freshly
  loaded module: same effects, same response.
\<close>

lemma fresh_alike:
  assumes "loginAttempts s (toLowerCase email) = None"
  shows "snd (login toLowerCase s (Some email) t v) = snd (login toLowerCase initial (Some email) t v)"
proof -
  have a: "attempts s (toLowerCase email) = attempts initial (toLowerCase email)"
    using assms by (rule attempts_own_None)
  have op: "\<not> (\<exists>n. attempts initial (toLowerCase email) = Number n \<and> 4 \<le> n)"
    by (auto simp: attempts_def getProp_def initial_def or0_def)
  then have op': "\<not> (\<exists>n. attempts s (toLowerCase email) = Number n \<and> 4 \<le> n)"
    by (simp add: a)
  show ?thesis
    using op op' by (cases v) (simp_all add: login_open a)
qed

text \<open>For an ordinary key the counter afterwards is the same too.\<close>

lemma fresh_alike_counter:
  assumes "loginAttempts s (toLowerCase email) = None" and "ordinary (toLowerCase email)"
  shows "attempts (fst (login toLowerCase s (Some email) t v)) (toLowerCase email)
         = attempts (fst (login toLowerCase initial (Some email) t v)) (toLowerCase email)"
proof -
  have z: "attempts s (toLowerCase email) = Number 0"
    using assms(2,1) by (rule attempts_clean)
  have i: "attempts initial (toLowerCase email) = Number 0"
    using assms(2) by (rule attempts_clean) (simp add: initial_def)
  have op: "\<not> (\<exists>n. attempts s (toLowerCase email) = Number n \<and> 4 \<le> n)"
    and op': "\<not> (\<exists>n. attempts initial (toLowerCase email) = Number n \<and> 4 \<le> n)"
    by (simp_all add: z i)
  show ?thesis
  proof (cases v)
    case (Truthy p)
    then show ?thesis
      using op op' by (simp add: login_truthy attempts_def getProp_def)
  next
    case Falsy
    then show ?thesis
      using z i by (simp add: login_falsy_Number attempts_def getProp_def)
  next
    case (Rejection e)
    then show ?thesis
      using z i assms(2) op op'
      by (simp add: login_rejection putProp_ordinary)
         (simp add: attempts_def getProp_def or0_def)
  qed
qed

section \<open>The lockout trip (C1)\<close>

text \<open>
  C1, as claimed: four consecutive failed attempts of a clean identity end in
  \<open>[Rejected, Rejected, Rejected, Locked]\<close>. The code does otherwise: the test of line 37
  is \<^verbatim>\<open>remainingAttempts <= 0\<close> on the counter read before the credentials are checked,
  so the fourth failure is still answered \<^verbatim>\<open>INVALID_CREDENTIALS\<close>. For the address
  \<open>bob@x.com\<close> and four failures twenty seconds apart, on the freshly loaded module:
\<close>

theorem fourth_failure_not_locked:
  "outcomes asciiToLowerCase initial (failures ''bob@x.com'' [1000, 21000, 41000, 61000])
     \<noteq> [Rejected, Rejected, Rejected, Locked]"
  by code_simp

text \<open>
  C1, amended: for an identity whose key is ordinary (not the name of a member of
  \<^verbatim>\<open>Object.prototype\<close>) and which has no counter, four consecutive failed attempts with
  no staleness between them are answered Rejected, with the numbers 1, 2, 3, 4 in the
  log; the fifth consecutive failed attempt, whenever it comes, is answered Locked (the
  log line reads 5) and deletes the counter; and the attempt after that is served as an
  attempt of a fresh identity is, whatever its time and the service's verdict.
\<close>

theorem fifth_failure_locks:
  assumes ord: "ordinary (toLowerCase email)"
    and clean: "loginAttempts s (toLowerCase email) = None"
    and gaps: "t2 - t1 \<le> LOGIN_TIMEOUT" "t3 - t2 \<le> LOGIN_TIMEOUT" "t4 - t3 \<le> LOGIN_TIMEOUT"
  shows "outcomes toLowerCase s (failures email [t1, t2, t3, t4, t5])
           = [Rejected, Rejected, Rejected, Rejected, Locked]
       \<and> loggedNumbers toLowerCase s (failures email [t1, t2, t3, t4, t5])
           = [Number 1, Number 2, Number 3, Number 4, Number 5]
       \<and> loginAttempts (fst (run toLowerCase s (failures email [t1, t2, t3, t4, t5])))
            (toLowerCase email) = None
       \<and> (\<forall>t6 v.
             snd (login toLowerCase (fst (run toLowerCase s (failures email [t1, t2, t3, t4, t5])))
                    (Some email) t6 v)
               = snd (login toLowerCase initial (Some email) t6 v)
           \<and> attempts
               (fst (login toLowerCase
                       (fst (run toLowerCase s (failures email [t1, t2, t3, t4, t5])))
                       (Some email) t6 v))
               (toLowerCase email)
               = attempts (fst (login toLowerCase initial (Some email) t6 v)) (toLowerCase email))"
proof -
  let ?k = "toLowerCase email"
  let ?m = "Next (INVALID_CREDENTIALS ''Wrong email or password'')"
  have c0: "attempts s ?k = Number 0"
    using ord clean by (rule attempts_clean)
  obtain s1 where l1: "login toLowerCase s (Some email) t1 Falsy = (s1, [LogFailed email (Number 1)], ?m)"
    and c1: "attempts s1 ?k = Number 1" and w1: "lastLoginAttemptTime s1 ?k = Some (Number t1)"
    using failure_step [of s toLowerCase email 0 t1] c0 ord by (simp add: attempts_stored)
  obtain s2 where l2: "login toLowerCase s1 (Some email) t2 Falsy = (s2, [LogFailed email (Number 2)], ?m)"
    and c2: "attempts s2 ?k = Number 2" and w2: "lastLoginAttemptTime s2 ?k = Some (Number t2)"
    using failure_step [of s1 toLowerCase email 1 t2] c1 ord timedOut_after [OF w1 gaps(1)]
    by (simp add: attempts_stored)
  obtain s3 where l3: "login toLowerCase s2 (Some email) t3 Falsy = (s3, [LogFailed email (Number 3)], ?m)"
    and c3: "attempts s3 ?k = Number 3" and w3: "lastLoginAttemptTime s3 ?k = Some (Number t3)"
    using failure_step [of s2 toLowerCase email 2 t3] c2 ord timedOut_after [OF w2 gaps(2)]
    by (simp add: attempts_stored)
  obtain s4 where l4: "login toLowerCase s3 (Some email) t4 Falsy = (s4, [LogFailed email (Number 4)], ?m)"
    and c4: "attempts s4 ?k = Number 4"
    using failure_step [of s3 toLowerCase email 3 t4] c3 ord timedOut_after [OF w3 gaps(3)]
    by (simp add: attempts_stored)
  obtain s5 where l5: "login toLowerCase s4 (Some email) t5 Falsy =
       (s5, [LogLockedOut email (Number 5), Timer 60000],
        Next (FORBIDDEN ''Too many failed login attempts''))"
    and c5: "loginAttempts s5 ?k = None"
    using login_locked [of s4 toLowerCase email 4 t5 Falsy] c4 by simp
  have r: "run toLowerCase s (failures email [t1, t2, t3, t4, t5]) =
      (s5, [([LogFailed email (Number 1)], ?m), ([LogFailed email (Number 2)], ?m),
            ([LogFailed email (Number 3)], ?m), ([LogFailed email (Number 4)], ?m),
            ([LogLockedOut email (Number 5), Timer 60000],
             Next (FORBIDDEN ''Too many failed login attempts''))])"
    by (simp add: failures_def l1 l2 l3 l4 l5)
  show ?thesis
    using fresh_alike [of s5 toLowerCase email] fresh_alike_counter [of s5 toLowerCase email] c5 ord
    by (simp add: r outcomes_def loggedNumbers_def)
qed

theorem fifth_failure_locks_witness:
  "ordinary (asciiToLowerCase ''bob@x.com'')
   \<and> outcomes asciiToLowerCase initial (failures ''bob@x.com'' [1000, 21000, 41000, 61000, 61001])
           = [Rejected, Rejected, Rejected, Rejected, Locked]
   \<and> loggedNumbers asciiToLowerCase initial (failures ''bob@x.com'' [1000, 21000, 41000, 61000, 61001])
           = [Number 1, Number 2, Number 3, Number 4, Number 5]
   \<and> loginAttempts
        (fst (run asciiToLowerCase initial (failures ''bob@x.com'' [1000, 21000, 41000, 61000, 61001])))
        (asciiToLowerCase ''bob@x.com'') = None"
proof -
  have k: "asciiToLowerCase ''bob@x.com'' = ''bob@x.com''"
    by code_simp
  have o: "ordinary (asciiToLowerCase ''bob@x.com'')"
    unfolding k by (simp add: ordinary_def functionMembers_def)
  have c: "loginAttempts initial (asciiToLowerCase ''bob@x.com'') = None"
    by (simp add: initial_def)
  have g: "21000 - 1000 \<le> LOGIN_TIMEOUT" "41000 - 21000 \<le> LOGIN_TIMEOUT"
    "61000 - 41000 \<le> LOGIN_TIMEOUT"
    by (simp_all add: LOGIN_TIMEOUT_def)
  show ?thesis
    using o fifth_failure_locks [where toLowerCase = asciiToLowerCase and s = initial
        and email = "''bob@x.com''" and ?t1.0 = 1000 and ?t2.0 = 21000 and ?t3.0 = 41000
        and ?t4.0 = 61000 and ?t5.0 = 61001, OF o c g]
    by blast
qed

section \<open>Staleness (C2)\<close>

text \<open>
  C2 says that once more than \<open>LOGIN_TIMEOUT\<close> has passed since the last failure, the next
  attempt is evaluated as if the counter were zero, the reset coming before the lockout
  decision. The code resets the stored counter at line 34, but the lockout test of line
  37 uses \<^verbatim>\<open>remainingAttempts\<close>, computed at line 26 from the counter read at line 25.
  The code at the failing input: after four failures of \<open>bob@x.com\<close> and forty idle
  minutes the record is stale, yet the next attempt is answered Locked. The same early
  reading is what the log line of line 58 prints: after three failures and forty idle
  minutes the next failure is stored as failure 1 and logged as attempt 4.
\<close>

theorem stale_counter_still_locks:
  "timedOut (fst (run asciiToLowerCase initial (failures ''bob@x.com'' [1000, 2000, 3000, 4000])))
     ''bob@x.com'' 2404000
   \<and> outcomes asciiToLowerCase initial (failures ''bob@x.com'' [1000, 2000, 3000, 4000, 2404000])
       = [Rejected, Rejected, Rejected, Rejected, Locked]
   \<and> timedOut (fst (run asciiToLowerCase initial (failures ''bob@x.com'' [1000, 2000, 3000])))
       ''bob@x.com'' 2403000
   \<and> loggedNumbers asciiToLowerCase initial (failures ''bob@x.com'' [1000, 2000, 3000, 2403000])
       = [Number 1, Number 2, Number 3, Number 4]
   \<and> loginAttempts
        (fst (run asciiToLowerCase initial (failures ''bob@x.com'' [1000, 2000, 3000, 2403000])))
        ''bob@x.com'' = Some (Number 1)"
  by code_simp

section \<open>The lockout path (C3)\<close>




section \<open>Success clears the counter (C4)\<close>




section \<open>A failure after a success (C5)\<close>

text \<open>
  C5 says that after a success the next failed attempt of the identity is counted and
  reported as failure 1, for every identity. The two objects are plain objects, and a
  read under a key that names a member of \<^verbatim>\<open>Object.prototype\<close> yields that member when
  the object has no own property: the code at the failing input, the address
  \<open>constructor\<close>. The success deletes nothing, the failure after it reads the inherited
  function at lines 25 and 55, logs \<^verbatim>\<open>attempts: NaN\<close> and stores a string where the
  counter 1 should be.
\<close>

theorem inherited_key_failure_after_success:
  "outcomeOf (snd (snd (login asciiToLowerCase initial (Some ''constructor'') 1000 (Truthy ''token''))))
     = Authenticated
   \<and> snd (login asciiToLowerCase
            (fst (login asciiToLowerCase initial (Some ''constructor'') 1000 (Truthy ''token'')))
            (Some ''constructor'') 2000 Falsy)
       = ([LogFailed ''constructor'' NaN], Next (INVALID_CREDENTIALS ''Wrong email or password''))
   \<and> loginAttempts
        (fst (login asciiToLowerCase
            (fst (login asciiToLowerCase initial (Some ''constructor'') 1000 (Truthy ''token'')))
            (Some ''constructor'') 2000 Falsy))
        ''constructor'' = Some (Text 1)"
  by code_simp

text \<open>For an ordinary key the failure after a success is the first one, logged and stored as 1.\<close>

lemma failure_after_success_is_first:
  assumes "outcomeOf (snd (snd (login toLowerCase s (Some email) now v))) = Authenticated"
    and "toLowerCase email' = toLowerCase email"
    and "ordinary (toLowerCase email)"
  shows "snd (login toLowerCase (fst (login toLowerCase s (Some email) now v)) (Some email') t Falsy)
           = ([LogFailed email' (Number 1)], Next (INVALID_CREDENTIALS ''Wrong email or password''))
       \<and> loginAttempts
            (fst (login toLowerCase (fst (login toLowerCase s (Some email) now v)) (Some email') t Falsy))
            (toLowerCase email)
           = Some (Number 1)"
proof -
  from assms obtain p where v: "v = Truthy p"
    and op: "\<not> (\<exists>n. attempts s (toLowerCase email) = Number n \<and> 4 \<le> n)"
    by (auto simp: login_outcome_authenticated)
  have l: "login toLowerCase s (Some email) now v
            = (s\<lparr>loginAttempts := (loginAttempts s)(toLowerCase email := None)\<rparr>, [], Json200 p)"
    using op v by (simp add: login_truthy)
  have z: "attempts (fst (login toLowerCase s (Some email) now v)) (toLowerCase email') = Number 0"
    using assms(2,3) by (simp add: l attempts_clean)
  show ?thesis
    using failure_step [of "fst (login toLowerCase s (Some email) now v)" toLowerCase email' 0 t]
      z assms(2,3)
    by simp
qed

section \<open>Counting failures (C6)\<close>

lemma fst_run_Cons:
  "fst (run toLowerCase s ((body, now, v) # as))
     = fst (run toLowerCase (fst (login toLowerCase s body now v)) as)"
  by (simp split: prod.splits)

lemma spaced_take: "spaced t ts \<Longrightarrow> spaced t (take k ts)"
proof (induction ts arbitrary: t k)
  case Nil
  then show ?case by simp
next
  case (Cons u us)
  then show ?case by (cases k) simp_all
qed

lemma unbroken_take: "unbroken ts \<Longrightarrow> unbroken (take k ts)"
  by (cases ts; cases k) (simp_all add: spaced_take)

lemma run_failures_counter:
  assumes "attempts s (toLowerCase email) = Number c"
    and "c + int (length (t # ts)) \<le> 4"
    and "c = 0 \<or> \<not> timedOut s (toLowerCase email) t"
    and "spaced t ts"
    and "ordinary (toLowerCase email)"
  shows "loginAttempts (fst (run toLowerCase s (failures email (t # ts)))) (toLowerCase email)
           = Some (Number (c + int (length (t # ts))))"
  using assms(1-4)
proof (induction ts arbitrary: s c t)
  case Nil
  then have "c < 4" by simp
  with Nil assms(5) show ?case
    by (simp add: failures_def failure_step)
next
  case (Cons u us)
  then have lt: "c < 4" by simp
  let ?s1 = "fst (login toLowerCase s (Some email) t Falsy)"
  have l: "login toLowerCase s (Some email) t Falsy =
           (s\<lparr>loginAttempts := (loginAttempts s)(toLowerCase email \<mapsto> Number (c + 1)),
              lastLoginAttemptTime := (lastLoginAttemptTime s)(toLowerCase email \<mapsto> Number t)\<rparr>,
            [LogFailed email (Number (c + 1))],
            Next (INVALID_CREDENTIALS ''Wrong email or password''))"
    using Cons.prems(1) lt Cons.prems(3) assms(5) by (rule failure_step)
  have c1: "attempts ?s1 (toLowerCase email) = Number (c + 1)"
    by (simp add: l attempts_stored)
  have w1: "lastLoginAttemptTime ?s1 (toLowerCase email) = Some (Number t)"
    by (simp add: l)
  have fresh: "\<not> timedOut ?s1 (toLowerCase email) u"
    using w1 Cons.prems(4) by (simp add: timedOut_after)
  have "loginAttempts (fst (run toLowerCase ?s1 (failures email (u # us)))) (toLowerCase email)
          = Some (Number (c + 1 + int (length (u # us))))"
    using c1 Cons.prems(2,4) fresh by (intro Cons.IH) simp_all
  moreover have "fst (run toLowerCase s (failures email (t # u # us)))
      = fst (run toLowerCase ?s1 (failures email (u # us)))"
    using fst_run_Cons [of toLowerCase s "Some email" t Falsy "failures email (u # us)"]
    by (simp add: failures_def)
  ultimately show ?case by simp
qed

text \<open>A write or a deletion under one key leaves the other keys as they were.\<close>

lemma putProp_other: "k' \<noteq> k \<Longrightarrow> putProp obj k v k' = obj k'"
  by (simp add: putProp_def)

lemma putProp_same_ordinary: "ordinary k \<Longrightarrow> putProp obj k v k = Some v"
  by (simp add: putProp_ordinary)

text \<open>
  In every state a call can reach from states of that kind, the own counter of an
  ordinary key is a number that is not negative.
\<close>

lemma loginBegin_keeps_sign:
  assumes "\<forall>key v. ordinary key \<longrightarrow> loginAttempts s key = Some v \<longrightarrow> (\<exists>n. v = Number n \<and> 0 \<le> n)"
  shows "\<forall>key v. ordinary key \<longrightarrow>
           loginAttempts (fst (loginBegin toLowerCase s body now)) key = Some v \<longrightarrow>
           (\<exists>n. v = Number n \<and> 0 \<le> n)"
proof (cases body)
  case None
  then show ?thesis using assms by (simp add: loginBegin_def)
next
  case (Some email)
  have p: "\<forall>key v. ordinary key \<longrightarrow>
             putProp (loginAttempts s) (toLowerCase email) (Number 0) key = Some v \<longrightarrow>
             (\<exists>n. v = Number n \<and> 0 \<le> n)"
    using assms by (auto simp: putProp_def split: if_splits)
  show ?thesis
    using assms p by (simp add: Some loginBegin_def Let_def)
qed

lemma loginResume_keeps_sign:
  assumes "\<forall>key v. ordinary key \<longrightarrow> loginAttempts s key = Some v \<longrightarrow> (\<exists>n. v = Number n \<and> 0 \<le> n)"
  shows "\<forall>key v. ordinary key \<longrightarrow>
           loginAttempts (fst (loginResume s k u)) key = Some v \<longrightarrow>
           (\<exists>n. v = Number n \<and> 0 \<le> n)"
proof (cases k)
  case (AwaitTimer key email r)
  then show ?thesis using assms by (simp add: deleteProp_def)
next
  case (AwaitVerifier key email now r)
  show ?thesis
  proof (cases u)
    case (Truthy p)
    then show ?thesis using assms AwaitVerifier by (simp add: deleteProp_def)
  next
    case Falsy
    have "\<exists>n. jsAdd1 (attempts s key) = Number n \<and> 0 \<le> n" if "ordinary key"
    proof (cases "loginAttempts s key")
      case None
      then show ?thesis using that by (simp add: attempts_clean)
    next
      case (Some w)
      with assms that obtain n where "w = Number n" "0 \<le> n" by blast
      with Some show ?thesis by (simp add: attempts_def getProp_def or0_def)
    qed
    then have "\<forall>key' v. ordinary key' \<longrightarrow>
             putProp (loginAttempts s) key (jsAdd1 (attempts s key)) key' = Some v \<longrightarrow>
             (\<exists>n. v = Number n \<and> 0 \<le> n)"
      using assms by (auto simp: putProp_def split: if_splits)
    then show ?thesis using AwaitVerifier Falsy by simp
  next
    case (Rejection e)
    then show ?thesis using assms AwaitVerifier by simp
  qed
qed

lemma step_keeps_sign:
  assumes "\<forall>key v. ordinary key \<longrightarrow> loginAttempts (store c) key = Some v
             \<longrightarrow> (\<exists>n. v = Number n \<and> 0 \<le> n)"
  shows "\<forall>key v. ordinary key \<longrightarrow> loginAttempts (store (step toLowerCase c e)) key = Some v
             \<longrightarrow> (\<exists>n. v = Number n \<and> 0 \<le> n)"
proof (cases e)
  case (Begin i body now)
  obtain s1 fx st where b: "loginBegin toLowerCase (store c) body now = (s1, fx, st)"
    by (cases "loginBegin toLowerCase (store c) body now") auto
  have "store (step toLowerCase c e) = s1"
    by (cases st) (simp_all add: Begin b)
  moreover have "s1 = fst (loginBegin toLowerCase (store c) body now)"
    by (simp add: b)
  ultimately show ?thesis
    using loginBegin_keeps_sign [OF assms, of toLowerCase body now] by simp
next
  case (Settle i u)
  show ?thesis
  proof (cases "pending c i")
    case None
    then show ?thesis using assms by (simp add: Settle)
  next
    case (Some k)
    have "store (step toLowerCase c e) = fst (loginResume (store c) k u)"
      by (simp add: Settle Some split: prod.splits)
    then show ?thesis
      using loginResume_keeps_sign [OF assms, of k u] by simp
  qed
qed

lemma exec_keeps_sign:
  assumes "\<forall>key v. ordinary key \<longrightarrow> loginAttempts (store c) key = Some v
             \<longrightarrow> (\<exists>n. v = Number n \<and> 0 \<le> n)"
  shows "\<forall>key v. ordinary key \<longrightarrow> loginAttempts (store (exec toLowerCase c sch)) key = Some v
             \<longrightarrow> (\<exists>n. v = Number n \<and> 0 \<le> n)"
  using assms
proof (induction sch arbitrary: c)
  case Nil
  then show ?case by simp
next
  case (Cons e es)
  show ?case
    unfolding exec.simps
    by (rule Cons.IH) (rule step_keeps_sign [OF Cons.prems])
qed

text \<open>Calls made one after the other keep the counter of an ordinary key from 0 to 4.\<close>

lemma login_keeps_range:
  assumes "\<forall>key v. ordinary key \<longrightarrow> loginAttempts s key = Some v
             \<longrightarrow> (\<exists>n. v = Number n \<and> 0 \<le> n \<and> n \<le> 4)"
  shows "\<forall>key v. ordinary key \<longrightarrow> loginAttempts (fst (login toLowerCase s body now u)) key = Some v
             \<longrightarrow> (\<exists>n. v = Number n \<and> 0 \<le> n \<and> n \<le> 4)"
proof (cases body)
  case None
  then show ?thesis using assms by (simp add: login_no_address)
next
  case (Some email)
  let ?k = "toLowerCase email"
  show ?thesis
  proof (cases "\<exists>n. attempts s ?k = Number n \<and> 4 \<le> n")
    case True
    then obtain n where n: "attempts s ?k = Number n" "4 \<le> n" by blast
    have "loginAttempts (fst (login toLowerCase s (Some email) now u)) key = Some v
            \<Longrightarrow> loginAttempts s key = Some v" for key v
      using n by (simp add: login_locked split: if_splits)
    then show ?thesis using assms Some by blast
  next
    case False
    have p0: "\<forall>key v. ordinary key \<longrightarrow>
             putProp (loginAttempts s) ?k (Number 0) key = Some v \<longrightarrow>
             (\<exists>n. v = Number n \<and> 0 \<le> n \<and> n \<le> 4)"
      using assms by (auto simp: putProp_def split: if_splits)
    show ?thesis
    proof (cases u)
      case (Truthy p)
      then show ?thesis using assms Some False by (simp add: login_truthy)
    next
      case (Rejection e)
      then show ?thesis using assms Some False p0 by (simp add: login_rejection)
    next
      case Falsy
      show ?thesis
      proof (cases "ordinary ?k")
        case True
        have "\<exists>n. attempts s ?k = Number n \<and> 0 \<le> n \<and> n \<le> 4"
        proof (cases "loginAttempts s ?k")
          case None
          then show ?thesis using True by (simp add: attempts_clean)
        next
          case (Some w)
          with assms True obtain n where "w = Number n" "0 \<le> n" "n \<le> 4" by blast
          with Some show ?thesis by (simp add: attempts_stored)
        qed
        then obtain n where n: "attempts s ?k = Number n" "0 \<le> n" "n < 4"
          using False by force
        show ?thesis
          using assms n by (simp add: Some Falsy login_falsy_Number)
      next
        case nonord: False
        have "loginAttempts (fst (login toLowerCase s (Some email) now Falsy)) key
                = loginAttempts s key" if "ordinary key" for key
        proof -
          from that nonord have "key \<noteq> ?k" by auto
          then show ?thesis
            using False by (simp add: login_open putProp_other)
        qed
        then show ?thesis using assms Some Falsy by simp
      qed
    qed
  qed
qed

lemma run_keeps_range:
  assumes "\<forall>key v. ordinary key \<longrightarrow> loginAttempts s key = Some v
             \<longrightarrow> (\<exists>n. v = Number n \<and> 0 \<le> n \<and> n \<le> 4)"
  shows "\<forall>key v. ordinary key \<longrightarrow> loginAttempts (fst (run toLowerCase s as)) key = Some v
             \<longrightarrow> (\<exists>n. v = Number n \<and> 0 \<le> n \<and> n \<le> 4)"
  using assms
proof (induction as arbitrary: s)
  case Nil
  then show ?case by simp
next
  case (Cons a as)
  obtain body now u where a: "a = (body, now, u)" by (cases a) auto
  show ?case
    unfolding a fst_run_Cons
    by (rule Cons.IH) (rule login_keeps_range [OF Cons.prems])
qed

text \<open>
  C6, as claimed: once the counter has reached \<open>MAX_LOGIN_ATTEMPTS\<close>, further failures are
  not counted. Calls in flight at the same time each test the counter they read on
  entry, and nothing serialises them: five overlapping failed attempts of \<open>bob@x.com\<close> on
  the freshly loaded module all pass line 37 and leave the counter at 5.
\<close>

theorem overlapping_failures_pass_the_limit:
  "loginAttempts
     (store (exec asciiToLowerCase (idle initial)
        [Begin 0 (Some ''bob@x.com'') 1000, Begin 1 (Some ''bob@x.com'') 1001,
         Begin 2 (Some ''bob@x.com'') 1002, Begin 3 (Some ''bob@x.com'') 1003,
         Begin 4 (Some ''bob@x.com'') 1004,
         Settle 0 Falsy, Settle 1 Falsy, Settle 2 Falsy, Settle 3 Falsy, Settle 4 Falsy]))
     ''bob@x.com'' = Some (Number 5)
   \<and> MAX_LOGIN_ATTEMPTS < 5"
  by code_simp

text \<open>
  C6, amended: for an identity with an ordinary key and no counter, and failed attempts
  in a row with no staleness between them, at most \<open>MAX_LOGIN_ATTEMPTS\<close> of them, the
  counter stored after the \<open>k\<close>-th failure is \<open>k\<close>. In every execution on the freshly
  loaded module, overlapping calls included, the stored counter of an ordinary key is a
  number and never negative. When the calls are made one after the other it is never
  above \<open>MAX_LOGIN_ATTEMPTS\<close> either, and a call that finds the counter at
  \<open>MAX_LOGIN_ATTEMPTS\<close> or above counts nothing: it leaves the identity without a counter.
\<close>

theorem failures_counted_once:
  assumes "ordinary (toLowerCase email)"
    and "loginAttempts s (toLowerCase email) = None"
    and "unbroken ts"
    and "int (length ts) \<le> MAX_LOGIN_ATTEMPTS"
  shows "(\<forall>k. 0 < k \<and> k \<le> length ts \<longrightarrow>
            loginAttempts (fst (run toLowerCase s (failures email (take k ts)))) (toLowerCase email)
              = Some (Number (int k)))
       \<and> (\<forall>sch key v. ordinary key \<longrightarrow>
            loginAttempts (store (exec toLowerCase (idle initial) sch)) key = Some v \<longrightarrow>
            (\<exists>n. v = Number n \<and> 0 \<le> n))
       \<and> (\<forall>as key v. ordinary key \<longrightarrow>
            loginAttempts (fst (run toLowerCase initial as)) key = Some v \<longrightarrow>
            (\<exists>n. v = Number n \<and> 0 \<le> n \<and> n \<le> MAX_LOGIN_ATTEMPTS))
       \<and> (\<forall>s' email' now v n.
            attempts s' (toLowerCase email') = Number n \<and> MAX_LOGIN_ATTEMPTS \<le> n \<longrightarrow>
            loginAttempts (fst (login toLowerCase s' (Some email') now v)) (toLowerCase email')
              = None)"
proof (intro conjI allI impI)
  fix k
  assume k: "0 < k \<and> k \<le> length ts"
  then obtain t us where tk: "take k ts = t # us"
    by (cases "take k ts") auto
  have len: "length (take k ts) = k" using k by simp
  have sp: "spaced t us"
    using unbroken_take [OF assms(3), of k] by (simp add: tk)
  have z: "attempts s (toLowerCase email) = Number 0"
    using assms(1,2) by (rule attempts_clean)
  have b: "0 + int (length (t # us)) \<le> 4"
    using len k assms(4) by (simp add: tk MAX_LOGIN_ATTEMPTS_def)
  have "loginAttempts (fst (run toLowerCase s (failures email (t # us)))) (toLowerCase email)
           = Some (Number (0 + int (length (t # us))))"
    using z b _ sp assms(1) by (rule run_failures_counter) simp
  then show "loginAttempts (fst (run toLowerCase s (failures email (take k ts)))) (toLowerCase email)
      = Some (Number (int k))"
    using len by (simp add: tk)
next
  fix sch key v
  assume "ordinary key"
    and "loginAttempts (store (exec toLowerCase (idle initial) sch)) key = Some v"
  moreover have "\<forall>key v. ordinary key \<longrightarrow> loginAttempts (store (idle initial)) key = Some v
             \<longrightarrow> (\<exists>n. v = Number n \<and> 0 \<le> n)"
    by (simp add: idle_def initial_def)
  ultimately show "\<exists>n. v = Number n \<and> 0 \<le> n"
    using exec_keeps_sign [of "idle initial" toLowerCase sch] by blast
next
  fix as key v
  assume "ordinary key" and "loginAttempts (fst (run toLowerCase initial as)) key = Some v"
  moreover have "\<forall>key v. ordinary key \<longrightarrow> loginAttempts initial key = Some v
             \<longrightarrow> (\<exists>n. v = Number n \<and> 0 \<le> n \<and> n \<le> 4)"
    by (simp add: initial_def)
  ultimately show "\<exists>n. v = Number n \<and> 0 \<le> n \<and> n \<le> MAX_LOGIN_ATTEMPTS"
    using run_keeps_range [of initial toLowerCase as] by (simp add: MAX_LOGIN_ATTEMPTS_def)
next
  fix s' email' now v n
  assume "attempts s' (toLowerCase email') = Number n \<and> MAX_LOGIN_ATTEMPTS \<le> n"
  then show "loginAttempts (fst (login toLowerCase s' (Some email') now v)) (toLowerCase email') = None"
    by (simp add: login_locked MAX_LOGIN_ATTEMPTS_def)
qed

theorem failures_counted_once_witness:
  "ordinary (asciiToLowerCase ''bob@x.com'')
   \<and> loginAttempts initial (asciiToLowerCase ''bob@x.com'') = None
   \<and> unbroken [1000, 21000, 41000]
   \<and> loginAttempts
        (fst (run asciiToLowerCase initial (failures ''bob@x.com'' (take 1 [1000, 21000, 41000]))))
        (asciiToLowerCase ''bob@x.com'') = Some (Number 1)
   \<and> loginAttempts
        (fst (run asciiToLowerCase initial (failures ''bob@x.com'' (take 2 [1000, 21000, 41000]))))
        (asciiToLowerCase ''bob@x.com'') = Some (Number 2)
   \<and> loginAttempts
        (fst (run asciiToLowerCase initial (failures ''bob@x.com'' (take 3 [1000, 21000, 41000]))))
        (asciiToLowerCase ''bob@x.com'') = Some (Number 3)
   \<and> attempts (fst (run asciiToLowerCase initial (failures ''bob@x.com'' [1000, 2000, 3000, 4000])))
        (asciiToLowerCase ''bob@x.com'') = Number 4
   \<and> MAX_LOGIN_ATTEMPTS \<le> 4
   \<and> loginAttempts
        (fst (login asciiToLowerCase
           (fst (run asciiToLowerCase initial (failures ''bob@x.com'' [1000, 2000, 3000, 4000])))
           (Some ''bob@x.com'') 5000 Falsy))
        (asciiToLowerCase ''bob@x.com'') = None"
proof -
  have k: "asciiToLowerCase ''bob@x.com'' = ''bob@x.com''"
    by code_simp
  have o: "ordinary (asciiToLowerCase ''bob@x.com'')"
    unfolding k by (simp add: ordinary_def functionMembers_def)
  have a: "loginAttempts initial (asciiToLowerCase ''bob@x.com'') = None"
    by (simp add: initial_def)
  have b: "unbroken [1000, 21000, 41000]"
    by (simp add: LOGIN_TIMEOUT_def)
  have c: "int (length [1000, 21000, 41000 :: int]) \<le> MAX_LOGIN_ATTEMPTS"
    by (simp add: MAX_LOGIN_ATTEMPTS_def)
  have e: "attempts (fst (run asciiToLowerCase initial (failures ''bob@x.com'' [1000, 2000, 3000, 4000])))
        (asciiToLowerCase ''bob@x.com'') = Number 4"
    by code_simp
  have m: "MAX_LOGIN_ATTEMPTS \<le> 4"
    by (simp add: MAX_LOGIN_ATTEMPTS_def)
  note f = failures_counted_once [where toLowerCase = asciiToLowerCase and s = initial
      and email = "''bob@x.com''" and ts = "[1000, 21000, 41000]", OF o a b c]
  have k1: "loginAttempts
        (fst (run asciiToLowerCase initial (failures ''bob@x.com'' (take 1 [1000, 21000, 41000]))))
        (asciiToLowerCase ''bob@x.com'') = Some (Number 1)"
    using f [THEN conjunct1, rule_format, of 1] by simp
  have k2: "loginAttempts
        (fst (run asciiToLowerCase initial (failures ''bob@x.com'' (take 2 [1000, 21000, 41000]))))
        (asciiToLowerCase ''bob@x.com'') = Some (Number 2)"
    using f [THEN conjunct1, rule_format, of 2] by simp
  have k3: "loginAttempts
        (fst (run asciiToLowerCase initial (failures ''bob@x.com'' (take 3 [1000, 21000, 41000]))))
        (asciiToLowerCase ''bob@x.com'') = Some (Number 3)"
    using f [THEN conjunct1, rule_format, of 3] by simp
  have r: "loginAttempts
        (fst (login asciiToLowerCase
           (fst (run asciiToLowerCase initial (failures ''bob@x.com'' [1000, 2000, 3000, 4000])))
           (Some ''bob@x.com'') 5000 Falsy))
        (asciiToLowerCase ''bob@x.com'') = None"
    using f [THEN conjunct2, THEN conjunct2, THEN conjunct2, rule_format,
        of "fst (run asciiToLowerCase initial (failures ''bob@x.com'' [1000, 2000, 3000, 4000]))"
           "''bob@x.com''" 4 5000 Falsy]
      e m by blast
  show ?thesis
    using o a b e m k1 k2 k3 r by blast
qed

section \<open>Classification (C7)\<close>

text \<open>
  C7, as claimed: every call ends in Authenticated, Rejected or Locked, and any failure
  of the credential service is counted and answered Rejected. When the promise of
  \<^verbatim>\<open>checkLoginCredentials\<close> rejects, the \<^verbatim>\<open>catch\<close> of line 70 hands that error to
  \<^verbatim>\<open>next\<close> and line 55 is never reached: nothing is counted.
\<close>

theorem service_error_not_counted:
  "outcomeOf (snd (snd (login asciiToLowerCase initial (Some ''bob@x.com'') 1000
       (Rejection ''connection lost''))))
     = Unclassified
   \<and> loginAttempts (fst (login asciiToLowerCase initial (Some ''bob@x.com'') 1000
       (Rejection ''connection lost'')))
        ''bob@x.com'' = None
   \<and> outcomeOf (snd (snd (login asciiToLowerCase initial (Some ''bob@x.com'') 1000 Falsy))) = Rejected
   \<and> loginAttempts (fst (login asciiToLowerCase initial (Some ''bob@x.com'') 1000 Falsy))
        ''bob@x.com'' = Some (Number 1)"
  by code_simp

text \<open>
  C7, amended: for a request whose \<^verbatim>\<open>email\<close> is a string, \<^verbatim>\<open>login\<close> never raises: the call
  ends in a response or in \<^verbatim>\<open>next\<close>. The answer is Authenticated, Rejected or Locked
  unless the service itself throws, in which case its error is passed on unclassified,
  nothing is logged and no failure is counted. A falsy answer of the service, whatever
  made the service give it, is counted and answered Rejected whenever the counter read
  on entry is a number below the threshold.
\<close>

theorem login_classifies:
  "(\<forall>e. snd (snd (login toLowerCase s (Some email) now v)) \<noteq> Uncaught e)
   \<and> (outcomeOf (snd (snd (login toLowerCase s (Some email) now v)))
          \<in> {Authenticated, Rejected, Locked}
      \<or> (\<exists>e. v = Rejection e
            \<and> login toLowerCase s (Some email) now v
                = ((if timedOut s (toLowerCase email) now
                    then s\<lparr>loginAttempts :=
                             putProp (loginAttempts s) (toLowerCase email) (Number 0)\<rparr>
                    else s),
                   [], Next (Thrown e))))
   \<and> (\<forall>n. v = Falsy \<and> attempts s (toLowerCase email) = Number n \<and> n < MAX_LOGIN_ATTEMPTS \<longrightarrow>
        outcomeOf (snd (snd (login toLowerCase s (Some email) now v))) = Rejected
        \<and> loginAttempts (fst (login toLowerCase s (Some email) now v)) (toLowerCase email)
            = Some (Number ((if timedOut s (toLowerCase email) now then 0 else n) + 1)))"
proof (cases "\<exists>n. attempts s (toLowerCase email) = Number n \<and> 4 \<le> n")
  case True
  then show ?thesis by (auto simp: login_locked MAX_LOGIN_ATTEMPTS_def)
next
  case False
  show ?thesis
  proof (cases v)
    case (Truthy p)
    then show ?thesis using False by (simp add: login_truthy)
  next
    case Falsy
    have a: "\<forall>e. snd (snd (login toLowerCase s (Some email) now Falsy)) \<noteq> Uncaught e"
      and b: "outcomeOf (snd (snd (login toLowerCase s (Some email) now Falsy))) = Rejected"
      using False by (simp_all add: login_falsy_response)
    have c: "loginAttempts (fst (login toLowerCase s (Some email) now Falsy)) (toLowerCase email)
            = Some (Number ((if timedOut s (toLowerCase email) now then 0 else n) + 1))"
      if "attempts s (toLowerCase email) = Number n" and "n < MAX_LOGIN_ATTEMPTS" for n
      using that by (simp add: login_falsy_Number MAX_LOGIN_ATTEMPTS_def)
    show ?thesis
      unfolding Falsy using a b c by simp
  next
    case (Rejection e)
    then show ?thesis using False by (simp add: login_rejection)
  qed
qed

theorem login_classifies_witness:
  "attempts (fst (login asciiToLowerCase initial (Some ''bob@x.com'') 1000 Falsy))
      (asciiToLowerCase ''bob@x.com'') = Number 1
   \<and> 1 < MAX_LOGIN_ATTEMPTS
   \<and> outcomeOf (snd (snd (login asciiToLowerCase
        (fst (login asciiToLowerCase initial (Some ''bob@x.com'') 1000 Falsy))
        (Some ''bob@x.com'') 2000 Falsy))) = Rejected
   \<and> loginAttempts (fst (login asciiToLowerCase
        (fst (login asciiToLowerCase initial (Some ''bob@x.com'') 1000 Falsy))
        (Some ''bob@x.com'') 2000 Falsy))
        (asciiToLowerCase ''bob@x.com'') = Some (Number 2)"
proof -
  let ?s = "fst (login asciiToLowerCase initial (Some ''bob@x.com'') 1000 Falsy)"
  have c: "attempts ?s (asciiToLowerCase ''bob@x.com'') = Number 1"
    by code_simp
  have m: "1 < MAX_LOGIN_ATTEMPTS"
    by (simp add: MAX_LOGIN_ATTEMPTS_def)
  have t: "\<not> timedOut ?s (asciiToLowerCase ''bob@x.com'') 2000"
    by code_simp
  have "outcomeOf (snd (snd (login asciiToLowerCase ?s (Some ''bob@x.com'') 2000 Falsy))) = Rejected
        \<and> loginAttempts (fst (login asciiToLowerCase ?s (Some ''bob@x.com'') 2000 Falsy))
            (asciiToLowerCase ''bob@x.com'')
            = Some (Number ((if timedOut ?s (asciiToLowerCase ''bob@x.com'') 2000 then 0 else 1) + 1))"
    using login_classifies [where toLowerCase = asciiToLowerCase and s = ?s
        and email = "''bob@x.com''" and now = 2000 and v = Falsy] c m
    by blast
  then show ?thesis
    using c m t by simp
qed

section \<open>The penalty delay (C8)\<close>

lemma waitsFirst_Nil: "waitsFirst []"
  by (simp add: waitsFirst_def)

lemma waitsFirst_snoc:
  assumes "waitsFirst h"
    and "\<And>i m. x = Answer i (Next (FORBIDDEN m)) \<Longrightarrow> Effect i (Timer (1 * 60 * 1000)) \<in> set h"
  shows "waitsFirst (h @ [x])"
  unfolding waitsFirst_def
proof (intro allI impI)
  fix pre i m post
  assume eq: "h @ [x] = pre @ Answer i (Next (FORBIDDEN m)) # post"
  show "Effect i (Timer (1 * 60 * 1000)) \<in> set pre"
  proof (cases post rule: rev_cases)
    case Nil
    with eq have "h = pre" and "x = Answer i (Next (FORBIDDEN m))" by auto
    with assms(2) show ?thesis by simp
  next
    case (snoc post' y)
    with eq have "h = pre @ Answer i (Next (FORBIDDEN m)) # post'"
      by (metis append_Cons append_assoc butlast_snoc)
    with assms(1) show ?thesis by (auto simp: waitsFirst_def)
  qed
qed

lemma waitsFirst_effects: "waitsFirst h \<Longrightarrow> waitsFirst (h @ map (Effect i) fx)"
proof (induction fx arbitrary: h)
  case Nil
  then show ?case by simp
next
  case (Cons f fx)
  have "waitsFirst (h @ [Effect i f])"
    using Cons.prems by (rule waitsFirst_snoc) simp
  from Cons.IH [OF this] show ?case by simp
qed

text \<open>
  The invariant of every execution: a call suspended on the timer has its timer in the
  history, and every Locked answer in the history comes after the timer of its call.
\<close>

lemma step_waits_first:
  assumes "\<forall>i k e r. pending c i = Some (AwaitTimer k e r)
             \<longrightarrow> Effect i (Timer (1 * 60 * 1000)) \<in> set (history c)"
    and "waitsFirst (history c)"
  shows "(\<forall>i k e r. pending (step toLowerCase c ev) i = Some (AwaitTimer k e r)
             \<longrightarrow> Effect i (Timer (1 * 60 * 1000)) \<in> set (history (step toLowerCase c ev)))
       \<and> waitsFirst (history (step toLowerCase c ev))"
proof (cases ev)
  case (Begin j body now)
  show ?thesis
  proof (cases body)
    case None
    have "waitsFirst (history c @ [Answer j (Uncaught TypeError)])"
      using assms(2) by (rule waitsFirst_snoc) simp
    then show ?thesis
      using assms(1) by (simp add: Begin None loginBegin_def)
  next
    case (Some email)
    show ?thesis
    proof (cases "\<exists>n. attempts (store c) (toLowerCase email) = Number n \<and> 4 \<le> n")
      case True
      then obtain n where n: "attempts (store c) (toLowerCase email) = Number n" "4 \<le> n"
        by blast
      have "waitsFirst (history c
              @ map (Effect j) [LogLockedOut email (Number (n + 1)), Timer (1 * 60 * 1000)])"
        using assms(2) by (rule waitsFirst_effects)
      then show ?thesis
        using assms(1) n by (simp add: Begin Some loginBegin_locked)
    next
      case False
      then show ?thesis
        using assms by (simp add: Begin Some loginBegin_open)
    qed
  qed
next
  case (Settle j u)
  show ?thesis
  proof (cases "pending c j")
    case None
    then show ?thesis using assms by (simp add: Settle)
  next
    case (Some k)
    show ?thesis
    proof (cases k)
      case (AwaitTimer key email r)
      have "Effect j (Timer (1 * 60 * 1000)) \<in> set (history c)"
        using assms(1) Some AwaitTimer by blast
      then have "waitsFirst (history c @ [Answer j (Next (FORBIDDEN ''Too many failed login attempts''))])"
        using assms(2) by (intro waitsFirst_snoc) simp_all
      then show ?thesis
        using assms(1) by (simp add: Settle Some AwaitTimer)
    next
      case (AwaitVerifier key email now r)
      obtain s2 fx a where l: "loginResume (store c) k u = (s2, fx, a)"
        by (cases "loginResume (store c) k u") auto
      have nf: "\<And>m. a \<noteq> Next (FORBIDDEN m)"
        using l AwaitVerifier by (cases u) auto
      have "waitsFirst (history c @ map (Effect j) fx)"
        using assms(2) by (rule waitsFirst_effects)
      then have "waitsFirst ((history c @ map (Effect j) fx) @ [Answer j a])"
        using nf by (intro waitsFirst_snoc) simp_all
      then show ?thesis
        using assms(1) by (simp add: Settle Some l)
    qed
  qed
qed

lemma exec_waits_first:
  assumes "\<forall>i k e r. pending c i = Some (AwaitTimer k e r)
             \<longrightarrow> Effect i (Timer (1 * 60 * 1000)) \<in> set (history c)"
    and "waitsFirst (history c)"
  shows "waitsFirst (history (exec toLowerCase c sch))"
  using assms
proof (induction sch arbitrary: c)
  case Nil
  then show ?case by simp
next
  case (Cons ev evs)
  from step_waits_first [OF Cons.prems, of toLowerCase ev]
  show ?case
    unfolding exec.simps by (intro Cons.IH) blast+
qed

text \<open>
  C8: an attempt that finds the counter at \<open>MAX_LOGIN_ATTEMPTS\<close> or above logs the lockout,
  starts the timer of \<^verbatim>\<open>1 * 60 * 1000\<close> milliseconds and is suspended on it, with no answer
  given yet; the answer \<^verbatim>\<open>FORBIDDEN\<close> is given by the code that runs when that timer has
  run, and by no other. A call that nothing interleaves with is answered Locked after
  having waited the full minute. In every execution, whatever calls overlap, every
  Locked answer stands after the timer of its call in the history; and every call
  answered Locked has waited the minute. The source keeps no handle of the timer and its
  promise has no way to reject, so the model has no event that ends the wait early.
\<close>

theorem lockout_always_waits:
  assumes "attempts s (toLowerCase email) = Number n" and "MAX_LOGIN_ATTEMPTS \<le> n"
  shows "(\<forall>c i. store c = s \<longrightarrow>
            pending (step toLowerCase c (Begin i (Some email) now)) i
              = Some (AwaitTimer (toLowerCase email) email (Number (MAX_LOGIN_ATTEMPTS - n)))
            \<and> history (step toLowerCase c (Begin i (Some email) now))
              = history c @ [Effect i (LogLockedOut email (Number (n + 1))),
                             Effect i (Timer (1 * 60 * 1000))])
       \<and> (\<forall>c i k e r u. pending c i = Some (AwaitTimer k e r) \<longrightarrow>
            history (step toLowerCase c (Settle i u))
              = history c @ [Answer i (Next (FORBIDDEN ''Too many failed login attempts''))])
       \<and> outcomeOf (snd (snd (login toLowerCase s (Some email) now v))) = Locked
       \<and> waited (fst (snd (login toLowerCase s (Some email) now v))) = 1 * 60 * 1000
       \<and> (\<forall>s0 sch. waitsFirst (history (exec toLowerCase (idle s0) sch)))
       \<and> (\<forall>s' body t u. outcomeOf (snd (snd (login toLowerCase s' body t u))) = Locked \<longrightarrow>
            waited (fst (snd (login toLowerCase s' body t u))) = 1 * 60 * 1000)"
proof -
  have four: "4 \<le> n"
    using assms(2) by (simp add: MAX_LOGIN_ATTEMPTS_def)
  have a: "\<forall>c i. store c = s \<longrightarrow>
            pending (step toLowerCase c (Begin i (Some email) now)) i
              = Some (AwaitTimer (toLowerCase email) email (Number (MAX_LOGIN_ATTEMPTS - n)))
            \<and> history (step toLowerCase c (Begin i (Some email) now))
              = history c @ [Effect i (LogLockedOut email (Number (n + 1))),
                             Effect i (Timer (1 * 60 * 1000))]"
    using assms(1) four by (simp add: loginBegin_locked MAX_LOGIN_ATTEMPTS_def)
  have b: "\<forall>c i k e r u. pending c i = Some (AwaitTimer k e r) \<longrightarrow>
            history (step toLowerCase c (Settle i u))
              = history c @ [Answer i (Next (FORBIDDEN ''Too many failed login attempts''))]"
    by simp
  have c: "outcomeOf (snd (snd (login toLowerCase s (Some email) now v))) = Locked"
    and d: "waited (fst (snd (login toLowerCase s (Some email) now v))) = 1 * 60 * 1000"
    using assms(1) four by (simp_all add: login_locked)
  have e: "\<forall>s0 sch. waitsFirst (history (exec toLowerCase (idle s0) sch))"
    by (intro allI exec_waits_first) (simp_all add: idle_def waitsFirst_Nil)
  have f: "\<forall>s' body t u. outcomeOf (snd (snd (login toLowerCase s' body t u))) = Locked \<longrightarrow>
            waited (fst (snd (login toLowerCase s' body t u))) = 1 * 60 * 1000"
    by (auto simp: login_outcome_locked login_locked)
  show ?thesis
    using a b c d e f by blast
qed

theorem lockout_always_waits_witness:
  "attempts (fst (run asciiToLowerCase initial (failures ''bob@x.com'' [1000, 2000, 3000, 4000])))
      (asciiToLowerCase ''bob@x.com'') = Number 4
   \<and> MAX_LOGIN_ATTEMPTS \<le> 4
   \<and> outcomeOf (snd (snd (login asciiToLowerCase
        (fst (run asciiToLowerCase initial (failures ''bob@x.com'' [1000, 2000, 3000, 4000])))
        (Some ''bob@x.com'') 5000 (Truthy ''token'')))) = Locked
   \<and> waited (fst (snd (login asciiToLowerCase
        (fst (run asciiToLowerCase initial (failures ''bob@x.com'' [1000, 2000, 3000, 4000])))
        (Some ''bob@x.com'') 5000 (Truthy ''token'')))) = 60000"
proof -
  have h: "attempts (fst (run asciiToLowerCase initial (failures ''bob@x.com'' [1000, 2000, 3000, 4000])))
      (asciiToLowerCase ''bob@x.com'') = Number 4"
    by code_simp
  have m: "MAX_LOGIN_ATTEMPTS \<le> 4"
    by (simp add: MAX_LOGIN_ATTEMPTS_def)
  have "outcomeOf (snd (snd (login asciiToLowerCase
        (fst (run asciiToLowerCase initial (failures ''bob@x.com'' [1000, 2000, 3000, 4000])))
        (Some ''bob@x.com'') 5000 (Truthy ''token'')))) = Locked
     \<and> waited (fst (snd (login asciiToLowerCase
        (fst (run asciiToLowerCase initial (failures ''bob@x.com'' [1000, 2000, 3000, 4000])))
        (Some ''bob@x.com'') 5000 (Truthy ''token'')))) = 1 * 60 * 1000"
    using lockout_always_waits [where toLowerCase = asciiToLowerCase
        and s = "fst (run asciiToLowerCase initial (failures ''bob@x.com'' [1000, 2000, 3000, 4000]))"
        and email = "''bob@x.com''" and n = 4 and now = 5000 and v = "Truthy ''token''", OF h m]
    by blast
  then show ?thesis
    using h m by simp
qed

section \<open>Concurrent failures on one identity (C9)\<close>


section \<open>Transfers are written before the users are checked (C10)\<close>

text \<open>
  Whatever the repository, when both lookups resolve and one of them to \<^verbatim>\<open>null\<close>, the
  call returns \<^verbatim>\<open>null\<close> and leaves the database as the repository's write left it: the
  write of lines 135 to 141 comes before the checks of lines 143 and 147.
\<close>

lemma createTransfer_null_user:
  assumes "repoGetUser repo db toUserId = Inr toUser"
    and "repoGetUser repo db id' = Inr fromUser"
    and "toUser = None \<or> fromUser = None"
  shows "createTransfer repo db transferId timestamp id' toUserId amount
           = (fst (repoCreateTransfer repo db transferId fromUser toUser amount timestamp), None)"
  using assms by (auto simp: createTransfer_def split: prod.splits option.splits)

text \<open>
  C10, on the repository modelled from the spec: when the recipient or the sender does
  not exist, \<^verbatim>\<open>createTransfer\<close> returns \<^verbatim>\<open>null\<close> and the transfer is stored all the same,
  with the missing user as \<^verbatim>\<open>null\<close>: the list of stored transfers is not what it was.
\<close>

theorem createTransfer_persists_before_checking:
  assumes "users db toUserId = None \<or> users db id' = None"
  shows "createTransfer passthroughRepository db transferId timestamp id' toUserId amount
           = (db\<lparr>transfers := transfers db
                   @ [\<lparr>storedId = transferId, storedFrom = users db id',
                        storedTo = users db toUserId, storedAmount = amount,
                        storedAt = timestamp\<rparr>]\<rparr>,
              None)
       \<and> transfers (fst (createTransfer passthroughRepository db transferId timestamp id'
                           toUserId amount))
           \<noteq> transfers db"
proof -
  have "createTransfer passthroughRepository db transferId timestamp id' toUserId amount
           = (fst (repoCreateTransfer passthroughRepository db transferId (users db id')
                     (users db toUserId) amount timestamp), None)"
    using assms by (intro createTransfer_null_user) (simp_all add: passthroughRepository_def)
  then show ?thesis
    by (simp add: passthroughRepository_def)
qed

theorem createTransfer_persists_before_checking_witness:
  "(users \<lparr>users = [''u1'' \<mapsto> ''Ann''], transfers = []\<rparr> ''u9'' = None
      \<or> users \<lparr>users = [''u1'' \<mapsto> ''Ann''], transfers = []\<rparr> ''u1'' = None)
   \<and> createTransfer passthroughRepository \<lparr>users = [''u1'' \<mapsto> ''Ann''], transfers = []\<rparr>
        ''k3x9'' 1000 ''u1'' ''u9'' 50
       = (\<lparr>users = [''u1'' \<mapsto> ''Ann''],
           transfers = [\<lparr>storedId = ''k3x9'', storedFrom = Some ''Ann'', storedTo = None,
                         storedAmount = 50, storedAt = 1000\<rparr>]\<rparr>,
          None)"
proof -
  have h: "users \<lparr>users = [''u1'' \<mapsto> ''Ann''], transfers = []\<rparr> ''u9'' = None
      \<or> users \<lparr>users = [''u1'' \<mapsto> ''Ann''], transfers = []\<rparr> ''u1'' = None"
    by simp
  show ?thesis
    using h createTransfer_persists_before_checking [where
        db = "\<lparr>users = [''u1'' \<mapsto> ''Ann''], transfers = []\<rparr>" and toUserId = "''u9''"
        and id' = "''u1''" and transferId = "''k3x9''" and timestamp = 1000 and amount = 50, OF h]
    by simp
qed

end
